theory Spec2Isabelle
  imports Main "HOL-Library.AList"
begin

chapter \<open>The argument parser of cmdkit\<close>

text \<open>
  Package \<open>argv\<close> of cmdkit turns a command line into a chain of \<open>Argv\<close> nodes: a command
  name, its flags, and the sub-command that follows. This theory models \<open>Parse\<close>, the
  recursive \<open>parseArgs\<close> and the token tests \<open>isFlag\<close>, \<open>isIgnored\<close>, \<open>isList\<close> and
  \<open>isListEnd\<close>, and proves what the loop of \<open>parseArgs\<close> does on each kind of token.
\<close>

section \<open>Strings\<close>

text \<open>
  A Go string is a sequence of bytes; \<^typ>\<open>string\<close> is a list of 8-bit characters, so a
  token is modelled byte for byte. The functions of Go's package \<open>strings\<close> that the
  parser calls are written out below. The parser only ever searches for and splits at the
  one-byte strings \<open>"="\<close>, \<open>" "\<close> and \<open>","\<close>, so \<open>Index\<close> and \<open>Split\<close> take that byte.
\<close>

definition HasPrefix :: "string \<Rightarrow> string \<Rightarrow> bool" where
  "HasPrefix s p = (take (length p) s = p)"

definition HasSuffix :: "string \<Rightarrow> string \<Rightarrow> bool" where
  "HasSuffix s p = (length p \<le> length s \<and> drop (length s - length p) s = p)"

definition TrimPrefix :: "string \<Rightarrow> string \<Rightarrow> string" where
  "TrimPrefix s p = (if HasPrefix s p then drop (length p) s else s)"

definition TrimSuffix :: "string \<Rightarrow> string \<Rightarrow> string" where
  "TrimSuffix s p = (if HasSuffix s p then take (length s - length p) s else s)"

text \<open>\<open>TrimLeft\<close> and \<open>TrimRight\<close> remove every leading (trailing) byte of the cutset.\<close>

definition TrimLeft :: "string \<Rightarrow> string \<Rightarrow> string" where
  "TrimLeft s cutset = dropWhile (\<lambda>c. c \<in> set cutset) s"

definition TrimRight :: "string \<Rightarrow> string \<Rightarrow> string" where
  "TrimRight s cutset = rev (dropWhile (\<lambda>c. c \<in> set cutset) (rev s))"

text \<open>
  \<open>TrimSpace\<close> removes leading and trailing white space as \<open>unicode.IsSpace\<close> defines it.
  \<open>spaceRunes\<close> lists the UTF-8 encodings of those code points: U+0009 to U+000D, U+0020,
  U+0085, U+00A0, U+1680, U+2000 to U+200A, U+2028, U+2029, U+202F, U+205F and U+3000.
\<close>

definition spaceRunes :: "string list" where
  "spaceRunes =
    [[CHR 0x09], [CHR 0x0A], [CHR 0x0B], [CHR 0x0C], [CHR 0x0D], [CHR 0x20],
     [CHR 0xC2, CHR 0x85], [CHR 0xC2, CHR 0xA0],
     [CHR 0xE1, CHR 0x9A, CHR 0x80],
     [CHR 0xE2, CHR 0x80, CHR 0x80], [CHR 0xE2, CHR 0x80, CHR 0x81],
     [CHR 0xE2, CHR 0x80, CHR 0x82], [CHR 0xE2, CHR 0x80, CHR 0x83],
     [CHR 0xE2, CHR 0x80, CHR 0x84], [CHR 0xE2, CHR 0x80, CHR 0x85],
     [CHR 0xE2, CHR 0x80, CHR 0x86], [CHR 0xE2, CHR 0x80, CHR 0x87],
     [CHR 0xE2, CHR 0x80, CHR 0x88], [CHR 0xE2, CHR 0x80, CHR 0x89],
     [CHR 0xE2, CHR 0x80, CHR 0x8A],
     [CHR 0xE2, CHR 0x80, CHR 0xA8], [CHR 0xE2, CHR 0x80, CHR 0xA9],
     [CHR 0xE2, CHR 0x80, CHR 0xAF], [CHR 0xE2, CHR 0x81, CHR 0x9F],
     [CHR 0xE3, CHR 0x80, CHR 0x80]]"

text \<open>The number of bytes of the white-space rune a string begins (ends) with; 0 if none.\<close>

definition leadingSpace :: "string \<Rightarrow> nat" where
  "leadingSpace s = (case find (HasPrefix s) spaceRunes of None \<Rightarrow> 0 | Some w \<Rightarrow> length w)"

definition trailingSpace :: "string \<Rightarrow> nat" where
  "trailingSpace s = (case find (HasSuffix s) spaceRunes of None \<Rightarrow> 0 | Some w \<Rightarrow> length w)"


lemma leadingSpace_le: "leadingSpace s \<le> length s"
  by (auto simp: leadingSpace_def HasPrefix_def find_Some_iff split: option.splits)
    (metis length_take min.cobounded1)

lemma trailingSpace_le: "trailingSpace s \<le> length s"
  by (auto simp: trailingSpace_def HasSuffix_def find_Some_iff split: option.splits)

function trimSpaceLeft :: "string \<Rightarrow> string" where
  "trimSpaceLeft s =
     (if leadingSpace s = 0 then s else trimSpaceLeft (drop (leadingSpace s) s))"
  by pat_completeness auto
termination
proof (relation "measure length")
  show "wf (measure length)" by simp
next
  fix s :: string
  assume "leadingSpace s \<noteq> 0"
  moreover have "leadingSpace s \<le> length s" by (rule leadingSpace_le)
  ultimately show "(drop (leadingSpace s) s, s) \<in> measure length" by simp
qed

function trimSpaceRight :: "string \<Rightarrow> string" where
  "trimSpaceRight s =
     (if trailingSpace s = 0 then s
      else trimSpaceRight (take (length s - trailingSpace s) s))"
  by pat_completeness auto
termination
proof (relation "measure length")
  show "wf (measure length)" by simp
next
  fix s :: string
  assume "trailingSpace s \<noteq> 0"
  moreover have "trailingSpace s \<le> length s" by (rule trailingSpace_le)
  ultimately show "(take (length s - trailingSpace s) s, s) \<in> measure length" by simp
qed

declare trimSpaceLeft.simps [simp del] trimSpaceRight.simps [simp del]

definition TrimSpace :: "string \<Rightarrow> string" where
  "TrimSpace s = trimSpaceRight (trimSpaceLeft s)"

text \<open>\<open>Index s c\<close> is the position of the first byte \<open>c\<close> of \<open>s\<close>, or \<open>-1\<close>.\<close>

fun indexFrom :: "int \<Rightarrow> string \<Rightarrow> char \<Rightarrow> int" where
  "indexFrom n [] c = -1"
| "indexFrom n (x # xs) c = (if x = c then n else indexFrom (n + 1) xs c)"

definition Index :: "string \<Rightarrow> char \<Rightarrow> int" where
  "Index s c = indexFrom 0 s c"

text \<open>
  \<open>Split s c\<close> cuts \<open>s\<close> at every byte \<open>c\<close>; the pieces may be empty and there is always at
  least one. \<open>Join\<close> is its inverse direction.
\<close>

fun Split :: "string \<Rightarrow> char \<Rightarrow> string list" where
  "Split [] c = [[]]"
| "Split (x # xs) c =
     (if x = c then [] # Split xs c
      else (case Split xs c of [] \<Rightarrow> [[x]] | w # ws \<Rightarrow> (x # w) # ws))"

fun Join :: "string list \<Rightarrow> string \<Rightarrow> string" where
  "Join [] sep = []"
| "Join [x] sep = x"
| "Join (x # y # ys) sep = x @ sep @ Join (y # ys) sep"

section \<open>Token classes\<close>

definition isFlag :: "string \<Rightarrow> bool" where
  "isFlag s = (HasPrefix s ''-'' \<and> TrimLeft s ''-'' \<noteq> [])"

definition isIgnored :: "string \<Rightarrow> bool" where
  "isIgnored s = (s = [] \<or> s = ''-'' \<or> s = ''--'')"

definition isList :: "string \<Rightarrow> bool" where
  "isList s = HasPrefix s ''[''"

definition isListEnd :: "string \<Rightarrow> bool" where
  "isListEnd s = HasSuffix s '']''"

section \<open>Data model\<close>

text \<open>
  \<open>Argv\<close> is the parsed node. \<open>Sub\<close> is a pointer to the child node (\<open>None\<close> is nil).
  \<open>Pairs\<close> is a Go map, which may be nil (\<open>None\<close>); an allocated map is an association list
  with one entry per key, assigned to with \<^const>\<open>AList.update\<close> and read with \<^const>\<open>map_of\<close>.
\<close>

datatype Argv = Argv (Name: string) (Sub: "Argv option") (Text: string)
  (Pairs: "(string \<times> string list) list option")

text \<open>\<open>len(a.Pairs)\<close>, which is 0 for a nil map, and \<open>a.Pairs[k]\<close>.\<close>

definition lenPairs :: "Argv \<Rightarrow> nat" where
  "lenPairs a = (case Pairs a of None \<Rightarrow> 0 | Some ps \<Rightarrow> length ps)"

definition getPair :: "Argv \<Rightarrow> string \<Rightarrow> string list option" where
  "getPair a k = (case Pairs a of None \<Rightarrow> None | Some ps \<Rightarrow> map_of ps k)"

text \<open>
  The errors \<open>Parse\<close> returns: \<open>EmptyInput\<close> is "no argument provided", \<open>MisplacedFlags\<close>
  is "flags must come after command name", and \<open>MissingFlagValue opt\<close> is
  "flag opt has no provided value". A run-time panic is not an error value: the call
  does not return.
\<close>

datatype error = EmptyInput | MisplacedFlags | MissingFlagValue string

datatype panic = IndexOutOfRange | NilMapAssignment

text \<open>
  What a call of the parser does: \<open>Ok a\<close> is the return of \<open>a\<close> with a nil error,
  \<open>Fail a e\<close> the return of the partial node \<open>a\<close> with the error \<open>e\<close>, \<open>Panic p\<close> a panic.
\<close>

datatype outcome = Ok Argv | Fail Argv error | Panic panic

section \<open>The parser\<close>

text \<open>
  The scan for the elements of a list that spans several tokens (the inner \<open>for\<close> loop):
  while the token after the cursor exists and is neither a flag nor a list end, it is
  appended to the list and the cursor moves onto it.
\<close>

function scanList :: "string list \<Rightarrow> nat \<Rightarrow> string list \<Rightarrow> string list \<times> nat" where
  "scanList args i list =
     (if i + 1 < length args \<and> \<not> isFlag (args ! (i + 1)) \<and> \<not> isListEnd (args ! (i + 1))
      then scanList args (i + 1) (list @ [TrimSpace (args ! (i + 1))])
      else (list, i))"
  by pat_completeness auto
termination
  by (relation "measure (\<lambda>(args, i, list). length args - i)") auto

declare scanList.simps [simp del]

text \<open>
  The values of a flag whose text after \<open>=\<close> is \<open>value\<close>, and the cursor after them.
  A list closed in the same token is split at commas. A list left open is collected
  from the following tokens, joined with spaces and split at spaces again; the token
  after the scan is read without a bounds check, which panics at the end of the tokens.
\<close>

definition collectValues :: "string list \<Rightarrow> nat \<Rightarrow> string \<Rightarrow> panic + string list \<times> nat" where
  "collectValues args i value =
     (if isList value then
        (if isListEnd value then
           (let items = TrimSpace value;
                items = TrimLeft items ''['';
                items = TrimRight items '']''
            in Inr (Split items CHR '','', i))
         else
           (let beforeText = TrimSpace (TrimLeft value ''['');
                list0 = (if beforeText \<noteq> [] then [beforeText] else []);
                (list1, i1) = scanList args i list0
            in if i1 + 1 < length args then
                 (let (list2, i2) =
                        (if isListEnd (args ! (i1 + 1))
                         then (list1 @ [TrimSpace (TrimSuffix (args ! (i1 + 1)) '']'')], i1 + 1)
                         else (list1, i1));
                      items = Join list2 '' '';
                      items = TrimSpace items;
                      items = TrimPrefix items ''['';
                      items = TrimSuffix items '']''
                  in Inr (Split items CHR '' '', i2))
               else Inl IndexOutOfRange))
      else if value \<noteq> [] then Inr ([value], i)
      else Inr ([], i))"

text \<open>The assignments to the fields of the node under construction.\<close>

definition setName :: "Argv \<Rightarrow> string \<Rightarrow> Argv" where
  "setName a n = Argv n (Sub a) (Text a) (Pairs a)"

definition setText :: "Argv \<Rightarrow> string \<Rightarrow> Argv" where
  "setText a t = Argv (Name a) (Sub a) t (Pairs a)"

definition setSub :: "Argv \<Rightarrow> Argv \<Rightarrow> Argv" where
  "setSub a sub = Argv (Name a) (Some sub) (Text a) (Pairs a)"

text \<open>\<open>a.Pairs[k] = vs\<close>; an assignment to an entry of a nil map panics.\<close>

definition setPair :: "Argv \<Rightarrow> string \<Rightarrow> string list \<Rightarrow> Argv option" where
  "setPair a k vs =
     (case Pairs a of
        None \<Rightarrow> None
      | Some ps \<Rightarrow> Some (Argv (Name a) (Sub a) (Text a) (Some (AList.update k vs ps))))"

text \<open>
  One run of the body of the loop over the tokens, at cursor \<open>i < len(args)\<close>.
  \<open>Continue i' a' w'\<close> is the end of the body (or \<open>continue\<close>) with cursor, node and
  \<open>withCommand\<close> as given; the loop then increments the cursor. \<open>Return r\<close> is a return
  from the function. \<open>Recurse k t\<close> stands for the three statements
  \<open>sub, err := parseArgs(args[k:])\<close>, the return of the error if there is one, and
  otherwise the return of the node with \<open>Sub = &sub\<close> and \<open>Text = Join(args[t:], " ")\<close>.
\<close>

datatype step = Continue nat Argv bool | Return outcome | Recurse nat nat

text \<open>
  The branch on a token that is not a flag (and its copy at the end of the body): a last
  token becomes the text of the node, anything longer is parsed as a sub-command.
\<close>

definition branchOut :: "string list \<Rightarrow> nat \<Rightarrow> nat \<Rightarrow> Argv \<Rightarrow> step" where
  "branchOut args k t argd =
     (let rem = drop k args
      in if length rem = 1 \<and> \<not> isFlag (rem ! 0) then Return (Ok (setText argd (rem ! 0)))
         else Recurse k t)"

definition loopBody :: "string list \<Rightarrow> nat \<Rightarrow> Argv \<Rightarrow> bool \<Rightarrow> step" where
  "loopBody args i argd withCommand =
     (let arg = args ! i in
      if isIgnored arg then Continue i argd withCommand
      else if \<not> isFlag arg \<and> \<not> withCommand then
        (if lenPairs argd \<noteq> 0 then Return (Fail argd MisplacedFlags)
         else Continue i (setName argd arg) True)
      else if \<not> isFlag arg \<and> withCommand then branchOut args i i argd
      else
        (let opt = TrimLeft arg ''-'';
             pos = Index opt CHR ''='';
             hasEq = (pos \<noteq> -1);
             key = (if hasEq then TrimSpace (take (nat pos) opt) else []);
             value = (if hasEq then TrimSpace (drop (nat (pos + 1)) opt) else []);
             lastIndex = i
         in case collectValues args i value of
              Inl p \<Rightarrow> Return (Panic p)
            | Inr (values, i') \<Rightarrow>
                if key \<noteq> [] \<and> hasEq \<and> length values = 0 then
                  Return (Fail argd (MissingFlagValue opt))
                else if key \<noteq> [] \<and> hasEq then
                  (case setPair argd key values of
                     None \<Rightarrow> Return (Panic NilMapAssignment)
                   | Some argd' \<Rightarrow> Continue i' argd' withCommand)
                else if opt \<noteq> [] \<and> key = [] \<and> \<not> hasEq then
                  (case setPair argd opt [''true''] of
                     None \<Rightarrow> Return (Panic NilMapAssignment)
                   | Some argd' \<Rightarrow>
                       Continue (if lastIndex \<noteq> i' then lastIndex else i') argd' withCommand)
                else if key = [] \<and> \<not> hasEq then branchOut args lastIndex i' argd
                else Continue i' argd withCommand))"

text \<open>
  The cursor never moves back in the body, and the body only asks for a recursive parse
  of \<open>args[i:]\<close> once the command name has been seen. (The copy of the branch at the end
  of the body needs a flag that is empty without its dashes, which no flag is.)
\<close>

lemma scanList_cursor: "scanList args i list = (list', i') \<Longrightarrow> i \<le> i'"
proof (induction args i list rule: scanList.induct)
  case (1 args i list)
  show ?case
  proof (cases "i + 1 < length args \<and> \<not> isFlag (args ! (i + 1)) \<and> \<not> isListEnd (args ! (i + 1))")
    case True
    with "1.prems" have "scanList args (i + 1) (list @ [TrimSpace (args ! (i + 1))]) = (list', i')"
      by (subst (asm) scanList.simps) simp
    with "1.IH" True have "i + 1 \<le> i'" by blast
    then show ?thesis by simp
  next
    case False
    with "1.prems" have "i' = i" by (subst (asm) scanList.simps) auto
    then show ?thesis by simp
  qed
qed

lemma collectValues_cursor: "collectValues args i v = Inr (vs, i') \<Longrightarrow> i \<le> i'"
  by (auto simp: collectValues_def Let_def split: if_splits prod.splits dest: scanList_cursor)

lemma branchOut_Continue: "branchOut args k t argd \<noteq> Continue i' a' w'"
  by (simp add: branchOut_def Let_def)

lemma branchOut_Recurse: "branchOut args k t argd = Recurse k' t' \<Longrightarrow> k' = k \<and> t' = t"
  by (simp add: branchOut_def Let_def split: if_splits)

lemma loopBody_cursor: "loopBody args i argd w = Continue i' a' w' \<Longrightarrow> i \<le> i'"
  by (auto simp: loopBody_def Let_def branchOut_Continue
      split: if_splits sum.splits prod.splits option.splits dest: collectValues_cursor)

lemma loopBody_Recurse: "loopBody args i argd w = Recurse k t \<Longrightarrow> k = i \<and> w"
  by (auto simp: loopBody_def Let_def isFlag_def
      split: if_splits sum.splits prod.splits option.splits dest: branchOut_Recurse)

text \<open>
  The loop \<open>for i := 0; i < len(args); i++\<close> of \<open>parseArgs\<close>, from cursor \<open>i\<close> with node
  \<open>argd\<close> and flag \<open>withCommand\<close>, together with the recursive call of \<open>parseArgs\<close>,
  which starts the same loop on the rest of the tokens with a fresh node.
\<close>

definition newArgv :: Argv where
  "newArgv = Argv [] None [] (Some [])"

function parseLoop :: "string list \<Rightarrow> nat \<Rightarrow> Argv \<Rightarrow> bool \<Rightarrow> outcome" where
  "parseLoop args i argd withCommand =
     (if i < length args then
        (case loopBody args i argd withCommand of
           Continue i' argd' withCommand' \<Rightarrow> parseLoop args (i' + 1) argd' withCommand'
         | Return r \<Rightarrow> r
         | Recurse k t \<Rightarrow>
             (case parseLoop (drop k args) 0 newArgv False of
                Ok sub \<Rightarrow> Ok (setText (setSub argd sub) (Join (drop t args) '' ''))
              | Fail sub err \<Rightarrow> Fail argd err
              | Panic p \<Rightarrow> Panic p))
      else Ok argd)"
  by pat_completeness auto
termination
proof (relation "measure (\<lambda>(args, i, argd, w). 2 * (length args - i) + (if w then 1 else 0))")
  show "wf (measure (\<lambda>(args, i, argd, w). 2 * (length args - i) + (if w then 1 else 0)))"
    by simp
next
  fix args :: "string list" and i i' :: nat and argd argd' :: Argv and w w' :: bool
  assume "i < length args" and "loopBody args i argd w = Continue i' argd' w'"
  then have "i < length args" and "i \<le> i'" by (auto dest: loopBody_cursor)
  then show "((args, i' + 1, argd', w'), (args, i, argd, w))
      \<in> measure (\<lambda>(args, i, argd, w). 2 * (length args - i) + (if w then 1 else 0))"
    by auto
next
  fix args :: "string list" and i k t :: nat and argd :: Argv and w :: bool
  assume "i < length args" and "loopBody args i argd w = Recurse k t"
  then have "k = i" and "w" by (auto dest: loopBody_Recurse)
  then show "((drop k args, 0, newArgv, False), (args, i, argd, w))
      \<in> measure (\<lambda>(args, i, argd, w). 2 * (length args - i) + (if w then 1 else 0))"
    by auto
qed

declare parseLoop.simps [simp del]

definition parseArgs :: "string list \<Rightarrow> outcome" where
  "parseArgs args = parseLoop args 0 newArgv False"

text \<open>\<open>Parse\<close> refuses the empty string and splits any other at single spaces.\<close>

definition Parse :: "string \<Rightarrow> outcome" where
  "Parse args =
     (if length args = 0 then Fail (Argv [] None [] None) EmptyInput
      else parseArgs (Split args CHR '' ''))"

text \<open>
  The iterations of the loop of one call, from cursor \<open>i\<close>: the cursor, node and
  \<open>withCommand\<close> with which the body is entered, in order. The token \<open>args ! i\<close> of an
  iteration is the one the loop encounters; the tokens a list scan moved the cursor over
  are not.
\<close>

function iterations :: "string list \<Rightarrow> nat \<Rightarrow> Argv \<Rightarrow> bool \<Rightarrow> (nat \<times> Argv \<times> bool) list" where
  "iterations args i argd withCommand =
     (if i < length args then
        (i, argd, withCommand) #
        (case loopBody args i argd withCommand of
           Continue i' argd' withCommand' \<Rightarrow> iterations args (i' + 1) argd' withCommand'
         | Return r \<Rightarrow> []
         | Recurse k t \<Rightarrow> [])
      else [])"
  by pat_completeness auto
termination
proof (relation "measure (\<lambda>(args, i, argd, w). length args - i)")
  show "wf (measure (\<lambda>(args, i, argd, w). length args - i))"
    by simp
next
  fix args :: "string list" and i i' :: nat and argd argd' :: Argv and w w' :: bool
  assume "i < length args" and "loopBody args i argd w = Continue i' argd' w'"
  then have "i < length args" and "i \<le> i'" by (auto dest: loopBody_cursor)
  then show "((args, i' + 1, argd', w'), (args, i, argd, w))
      \<in> measure (\<lambda>(args, i, argd, w). length args - i)"
    by auto
qed

declare iterations.simps [simp del]

text \<open>
  The iterations of the loop of a call and of the recursive calls it makes, each with
  the slice of tokens its call examines: the tokens the parse of an input encounters, at
  every level.
\<close>

function visits :: "string list \<Rightarrow> nat \<Rightarrow> Argv \<Rightarrow> bool \<Rightarrow> (string list \<times> nat \<times> Argv \<times> bool) list" where
  "visits args i argd withCommand =
     (if i < length args then
        (args, i, argd, withCommand) #
        (case loopBody args i argd withCommand of
           Continue i' argd' withCommand' \<Rightarrow> visits args (i' + 1) argd' withCommand'
         | Return r \<Rightarrow> []
         | Recurse k t \<Rightarrow> visits (drop k args) 0 newArgv False)
      else [])"
  by pat_completeness auto
termination
proof (relation "measure (\<lambda>(args, i, argd, w). 2 * (length args - i) + (if w then 1 else 0))")
  show "wf (measure (\<lambda>(args, i, argd, w). 2 * (length args - i) + (if w then 1 else 0)))"
    by simp
next
  fix args :: "string list" and i i' :: nat and argd argd' :: Argv and w w' :: bool
  assume "i < length args" and "loopBody args i argd w = Continue i' argd' w'"
  then have "i < length args" and "i \<le> i'" by (auto dest: loopBody_cursor)
  then show "((args, i' + 1, argd', w'), (args, i, argd, w))
      \<in> measure (\<lambda>(args, i, argd, w). 2 * (length args - i) + (if w then 1 else 0))"
    by auto
next
  fix args :: "string list" and i k t :: nat and argd :: Argv and w :: bool
  assume "i < length args" and "loopBody args i argd w = Recurse k t"
  then have "k = i" and "w" by (auto dest: loopBody_Recurse)
  then show "((drop k args, 0, newArgv, False), (args, i, argd, w))
      \<in> measure (\<lambda>(args, i, argd, w). 2 * (length args - i) + (if w then 1 else 0))"
    by auto
qed

declare visits.simps [simp del]

text \<open>
  The nodes of a parsed tree, from the top node down the chain of \<open>Sub\<close> pointers, and
  the condition that a node's \<open>Pairs\<close> map is allocated and holds no empty value sequence.
\<close>

fun nodes :: "Argv \<Rightarrow> Argv list" where
  "nodes (Argv n sub t ps) =
     Argv n sub t ps # (case sub of None \<Rightarrow> [] | Some a \<Rightarrow> nodes a)"

definition pairsOk :: "Argv \<Rightarrow> bool" where
  "pairsOk a = (case Pairs a of None \<Rightarrow> False | Some al \<Rightarrow> list_all (\<lambda>(k, vs). vs \<noteq> []) al)"

text \<open>
  A flag token that can be taken in on its own: if it has an \<open>=\<close>, then the text after
  it is not empty unless the key is, and it does not open a list that the same token
  leaves unclosed.
\<close>

definition completeFlag :: "string \<Rightarrow> bool" where
  "completeFlag arg =
     (let opt = TrimLeft arg ''-'';
          pos = Index opt CHR ''='';
          key = TrimSpace (take (nat pos) opt);
          value = TrimSpace (drop (nat (pos + 1)) opt)
      in isFlag arg \<and>
         (pos = -1 \<or> ((key = [] \<or> value \<noteq> []) \<and> (isListEnd value \<or> \<not> isList value))))"


section \<open>Facts about the loop body\<close>

lemma loopBody_ignored:
  "isIgnored (args ! i) \<Longrightarrow> loopBody args i argd w = Continue i argd w"
  by (simp add: loopBody_def)

lemma loopBody_name:
  "\<not> isIgnored (args ! i) \<Longrightarrow> \<not> isFlag (args ! i) \<Longrightarrow>
   loopBody args i argd False =
     (if lenPairs argd \<noteq> 0 then Return (Fail argd MisplacedFlags)
      else Continue i (setName argd (args ! i)) True)"
  by (simp add: loopBody_def)

lemma loopBody_word:
  "\<not> isIgnored (args ! i) \<Longrightarrow> \<not> isFlag (args ! i) \<Longrightarrow>
   loopBody args i argd True = branchOut args i i argd"
  by (simp add: loopBody_def)

lemma isFlag_not_ignored: "isFlag s \<Longrightarrow> \<not> isIgnored s"
  by (auto simp: isFlag_def isIgnored_def TrimLeft_def HasPrefix_def)

text \<open>The body on a flag: the branch at its end cannot be taken, and the cursor is not reset.\<close>

lemma loopBody_flag:
  assumes "isFlag (args ! i)"
  shows "loopBody args i argd w =
     (let opt = TrimLeft (args ! i) ''-'';
          pos = Index opt CHR ''='';
          hasEq = (pos \<noteq> -1);
          key = (if hasEq then TrimSpace (take (nat pos) opt) else []);
          value = (if hasEq then TrimSpace (drop (nat (pos + 1)) opt) else [])
      in case collectValues args i value of
           Inl p \<Rightarrow> Return (Panic p)
         | Inr (values, i') \<Rightarrow>
             if key \<noteq> [] \<and> hasEq \<and> values = [] then
               Return (Fail argd (MissingFlagValue opt))
             else if key \<noteq> [] \<and> hasEq then
               (case setPair argd key values of
                  None \<Rightarrow> Return (Panic NilMapAssignment)
                | Some argd' \<Rightarrow> Continue i' argd' w)
             else if \<not> hasEq then
               (case setPair argd opt [''true''] of
                  None \<Rightarrow> Return (Panic NilMapAssignment)
                | Some argd' \<Rightarrow> Continue i argd' w)
             else Continue i' argd w)"
proof -
  have "TrimLeft (args ! i) ''-'' \<noteq> []" using assms by (simp add: isFlag_def)
  moreover have "\<not> isIgnored (args ! i)" using assms by (rule isFlag_not_ignored)
  ultimately show ?thesis using assms
    by (auto simp: loopBody_def Let_def split: sum.splits prod.splits option.splits)
qed

lemma Split_nonempty: "Split s c \<noteq> []"
  by (induction s) (auto split: list.splits)

lemma collectValues_empty:
  "collectValues args i v = Inr (vs, i') \<Longrightarrow> (vs = [] \<longleftrightarrow> v = [])"
  by (auto simp: collectValues_def Let_def Split_nonempty isList_def HasPrefix_def
      split: if_splits prod.splits)

lemma collectValues_plain:
  "\<not> isList v \<Longrightarrow> collectValues args i v = Inr (if v \<noteq> [] then [v] else [], i)"
  by (simp add: collectValues_def)

lemma collectValues_closed:
  "isList v \<longrightarrow> isListEnd v \<Longrightarrow> \<exists>vs. collectValues args i v = Inr (vs, i)"
  by (auto simp: collectValues_def Let_def)

lemma TrimSpace_Nil: "TrimSpace [] = []"
  by code_simp

lemma dashes_flag:
  assumes "dashes \<noteq> []" and "set dashes \<subseteq> {CHR ''-''}"
  shows "TrimLeft (dashes @ CHR ''='' # rest) ''-'' = CHR ''='' # rest"
    and "isFlag (dashes @ CHR ''='' # rest)"
proof -
  from assms(2) have "dropWhile (\<lambda>c. c \<in> set ''-'') (dashes @ CHR ''='' # rest)
      = dropWhile (\<lambda>c. c \<in> set ''-'') (CHR ''='' # rest)"
    by (intro dropWhile_append2) auto
  then show t: "TrimLeft (dashes @ CHR ''='' # rest) ''-'' = CHR ''='' # rest"
    by (simp add: TrimLeft_def)
  from assms obtain d ds where "dashes = d # ds" and "d = CHR ''-''"
    by (cases dashes) auto
  then have "HasPrefix (dashes @ CHR ''='' # rest) ''-''"
    by (simp add: HasPrefix_def)
  with t show "isFlag (dashes @ CHR ''='' # rest)"
    by (simp add: isFlag_def)
qed

lemma setPair_fields:
  "setPair a k vs = Some a' \<Longrightarrow>
   Name a' = Name a \<and> Sub a' = Sub a \<and> Text a' = Text a \<and> Pairs a' \<noteq> None"
  by (auto simp: setPair_def split: option.splits)

lemma setPair_Some: "Pairs a \<noteq> None \<Longrightarrow> \<exists>a'. setPair a k vs = Some a'"
  by (auto simp: setPair_def)

lemma list_all_update:
  "list_all P al \<Longrightarrow> P (k, v) \<Longrightarrow> list_all P (AList.update k v al)"
  by (induction al) auto

lemma setPair_pairsOk:
  "setPair a k vs = Some a' \<Longrightarrow> pairsOk a \<Longrightarrow> vs \<noteq> [] \<Longrightarrow> pairsOk a'"
  by (auto simp: setPair_def pairsOk_def list_all_update split: option.splits)

text \<open>What an iteration that continues has done to the node and to \<open>withCommand\<close>.\<close>

lemma loopBody_Continue_flag:
  assumes "isFlag (args ! i) \<or> isIgnored (args ! i)"
    and "loopBody args i argd w = Continue i' a' w'"
  shows "Name a' = Name argd \<and> Sub a' = Sub argd \<and> Text a' = Text argd \<and> w' = w
    \<and> (Pairs argd \<noteq> None \<longrightarrow> Pairs a' \<noteq> None) \<and> (pairsOk argd \<longrightarrow> pairsOk a')"
proof (cases "isIgnored (args ! i)")
  case True
  with assms(2) show ?thesis by (simp add: loopBody_ignored)
next
  case False
  with assms(1) have f: "isFlag (args ! i)" by simp
  show ?thesis using assms(2)
    by (auto simp: loopBody_flag [OF f] Let_def
        split: sum.splits prod.splits if_splits option.splits
        dest: setPair_fields setPair_pairsOk)
qed

lemma loopBody_Continue_word:
  assumes "\<not> isFlag (args ! i)" and "\<not> isIgnored (args ! i)"
    and "loopBody args i argd w = Continue i' a' w'"
  shows "\<not> w \<and> lenPairs argd = 0 \<and> a' = setName argd (args ! i) \<and> w' \<and> i' = i"
proof (cases w)
  case True
  with assms show ?thesis by (simp add: loopBody_word branchOut_Continue)
next
  case False
  with assms show ?thesis by (auto simp: loopBody_name split: if_splits)
qed

lemma loopBody_Continue_inv:
  assumes "loopBody args i argd w = Continue i' a' w'"
  shows "Sub a' = Sub argd \<and> Text a' = Text argd \<and> (w \<longrightarrow> w')
    \<and> (Pairs argd \<noteq> None \<longrightarrow> Pairs a' \<noteq> None) \<and> (pairsOk argd \<longrightarrow> pairsOk a')"
proof (cases "isFlag (args ! i) \<or> isIgnored (args ! i)")
  case True
  from loopBody_Continue_flag [OF True assms] show ?thesis by simp
next
  case False
  then have "a' = setName argd (args ! i) \<and> w'"
    using loopBody_Continue_word assms by blast
  then show ?thesis by (simp add: setName_def pairsOk_def)
qed

text \<open>The iterations that return, and those that recurse.\<close>

lemma loopBody_Return_flag:
  assumes "isFlag (args ! i) \<or> isIgnored (args ! i)"
    and "loopBody args i argd w = Return r"
  shows "(\<exists>p. r = Panic p) \<or> (\<exists>opt. r = Fail argd (MissingFlagValue opt))"
proof (cases "isIgnored (args ! i)")
  case True
  with assms(2) show ?thesis by (simp add: loopBody_ignored)
next
  case False
  with assms(1) have f: "isFlag (args ! i)" by simp
  show ?thesis using assms(2)
    by (auto simp: loopBody_flag [OF f] Let_def
        split: sum.splits prod.splits if_splits option.splits)
qed

lemma loopBody_Return_word:
  assumes "\<not> isFlag (args ! i)" and "\<not> isIgnored (args ! i)"
    and "loopBody args i argd w = Return r"
  shows "(\<not> w \<and> lenPairs argd \<noteq> 0 \<and> r = Fail argd MisplacedFlags)
    \<or> (w \<and> length (drop i args) = 1 \<and> r = Ok (setText argd (args ! i)))"
proof (cases w)
  case True
  with assms show ?thesis
    by (auto simp: loopBody_word branchOut_def Let_def hd_drop_conv_nth split: if_splits)
next
  case False
  with assms show ?thesis by (auto simp: loopBody_name split: if_splits)
qed

lemma loopBody_Recurse_word:
  assumes "i < length args" and "loopBody args i argd w = Recurse k t"
  shows "k = i \<and> t = i \<and> w \<and> \<not> isFlag (args ! i) \<and> \<not> isIgnored (args ! i)
    \<and> 2 \<le> length (drop i args)"
proof (cases "isFlag (args ! i) \<or> isIgnored (args ! i)")
  case True
  show ?thesis
  proof (cases "isIgnored (args ! i)")
    case True
    with assms(2) show ?thesis by (simp add: loopBody_ignored)
  next
    case False
    with True have f: "isFlag (args ! i)" by simp
    show ?thesis using assms(2)
      by (auto simp: loopBody_flag [OF f] Let_def
          split: sum.splits prod.splits if_splits option.splits)
  qed
next
  case False
  show ?thesis
  proof (cases w)
    case True
    with False assms show ?thesis
      by (auto simp: loopBody_word branchOut_def Let_def split: if_splits)
  next
    case w: False
    with False assms show ?thesis by (auto simp: loopBody_name split: if_splits)
  qed
qed

section \<open>Facts about the loop\<close>

lemma parseLoop_end: "\<not> i < length args \<Longrightarrow> parseLoop args i argd w = Ok argd"
  by (subst parseLoop.simps) simp

lemma parseLoop_Continue:
  "i < length args \<Longrightarrow> loopBody args i argd w = Continue i' a' w' \<Longrightarrow>
   parseLoop args i argd w = parseLoop args (i' + 1) a' w'"
  by (subst parseLoop.simps) simp

lemma parseLoop_Return:
  "i < length args \<Longrightarrow> loopBody args i argd w = Return r \<Longrightarrow> parseLoop args i argd w = r"
  by (subst parseLoop.simps) simp

lemma parseLoop_Recurse:
  "i < length args \<Longrightarrow> loopBody args i argd w = Recurse k t \<Longrightarrow>
   parseLoop args i argd w =
     (case parseArgs (drop k args) of
        Ok sub \<Rightarrow> Ok (setText (setSub argd sub) (Join (drop t args) '' ''))
      | Fail sub err \<Rightarrow> Fail argd err
      | Panic p \<Rightarrow> Panic p)"
  by (subst parseLoop.simps) (simp add: parseArgs_def)

lemma lenPairs_newArgv: "lenPairs newArgv = 0"
  by (simp add: lenPairs_def newArgv_def)

text \<open>Once the name is taken, or right before a fresh node takes it, no call fails with
  \<open>MisplacedFlags\<close>; in particular no recursive call does.\<close>

lemma no_misplaced_after_name:
  "w \<or> (lenPairs argd = 0 \<and> i < length args \<and> \<not> isIgnored (args ! i) \<and> \<not> isFlag (args ! i))
   \<Longrightarrow> parseLoop args i argd w \<noteq> Fail a MisplacedFlags"
proof (induction args i argd w arbitrary: a rule: parseLoop.induct)
  case (1 args i argd w)
  show ?case
  proof (cases "i < length args")
    case False
    then show ?thesis by (simp add: parseLoop_end)
  next
    case True
    show ?thesis
    proof (cases "loopBody args i argd w")
      case (Continue i' a' w')
      have "w'"
      proof (cases w)
        case True
        with Continue show ?thesis using loopBody_Continue_inv by blast
      next
        case False
        with "1.prems" Continue show ?thesis using loopBody_Continue_word by blast
      qed
      then have "parseLoop args (i' + 1) a' w' \<noteq> Fail a MisplacedFlags"
        using "1.IH"(1) [OF True Continue] by simp
      with True Continue show ?thesis by (simp add: parseLoop_Continue)
    next
      case (Return r)
      have "r \<noteq> Fail a MisplacedFlags"
      proof (cases "isFlag (args ! i) \<or> isIgnored (args ! i)")
        case True
        from loopBody_Return_flag [OF True Return] show ?thesis by auto
      next
        case False
        with Return have "(\<not> w \<and> lenPairs argd \<noteq> 0 \<and> r = Fail argd MisplacedFlags)
            \<or> (w \<and> length (drop i args) = 1 \<and> r = Ok (setText argd (args ! i)))"
          using loopBody_Return_word by blast
        with "1.prems" show ?thesis by auto
      qed
      with True Return show ?thesis by (simp add: parseLoop_Return)
    next
      case (Recurse k t)
      from loopBody_Recurse_word [OF True Recurse]
      have k: "k = i" and word: "\<not> isFlag (args ! i)" "\<not> isIgnored (args ! i)" by simp_all
      from True k word have "lenPairs newArgv = 0 \<and> 0 < length (drop k args)
          \<and> \<not> isIgnored (drop k args ! 0) \<and> \<not> isFlag (drop k args ! 0)"
        by (simp add: lenPairs_newArgv)
      then have "\<And>b. parseLoop (drop k args) 0 newArgv False \<noteq> Fail b MisplacedFlags"
        using "1.IH"(2) [OF True Recurse] by blast
      with True Recurse show ?thesis
        by (auto simp: parseLoop_Recurse parseArgs_def split: outcome.splits)
    qed
  qed
qed

lemma iterations_end: "\<not> i < length args \<Longrightarrow> iterations args i argd w = []"
  by (subst iterations.simps) simp

lemma iterations_Continue:
  "i < length args \<Longrightarrow> loopBody args i argd w = Continue i' a' w' \<Longrightarrow>
   iterations args i argd w = (i, argd, w) # iterations args (i' + 1) a' w'"
  by (subst iterations.simps) simp

lemma iterations_Return:
  "i < length args \<Longrightarrow> loopBody args i argd w = Return r \<Longrightarrow>
   iterations args i argd w = [(i, argd, w)]"
  by (subst iterations.simps) simp

lemma iterations_Recurse:
  "i < length args \<Longrightarrow> loopBody args i argd w = Recurse k t \<Longrightarrow>
   iterations args i argd w = [(i, argd, w)]"
  by (subst iterations.simps) simp

lemma iterations_bounds:
  "(j, a, v) \<in> set (iterations args i argd w) \<Longrightarrow> i \<le> j \<and> j < length args"
proof (induction args i argd w rule: iterations.induct)
  case (1 args i argd w)
  show ?case
  proof (cases "i < length args")
    case False
    with "1.prems" show ?thesis by (simp add: iterations_end)
  next
    case True
    show ?thesis
    proof (cases "loopBody args i argd w")
      case (Continue i' a' w')
      from Continue have "i \<le> i'" by (rule loopBody_cursor)
      with "1.prems" "1.IH" [OF True Continue] True Continue show ?thesis
        by (auto simp: iterations_Continue)
    next
      case (Return r)
      with "1.prems" True show ?thesis by (simp add: iterations_Return)
    next
      case (Recurse k t)
      with "1.prems" True show ?thesis by (simp add: iterations_Recurse)
    qed
  qed
qed

lemma misplaced_iff:
  "(\<exists>a. parseLoop args i argd w = Fail a MisplacedFlags) \<longleftrightarrow>
   (\<exists>(j, ad, v) \<in> set (iterations args i argd w).
      \<not> isIgnored (args ! j) \<and> \<not> isFlag (args ! j) \<and> \<not> v \<and> lenPairs ad \<noteq> 0)"
proof (induction args i argd w rule: parseLoop.induct)
  case (1 args i argd w)
  show ?case
  proof (cases "i < length args")
    case False
    then show ?thesis by (simp add: parseLoop_end iterations_end)
  next
    case True
    show ?thesis
    proof (cases "loopBody args i argd w")
      case (Continue i' a' w')
      have "\<not> (\<not> isIgnored (args ! i) \<and> \<not> isFlag (args ! i) \<and> \<not> w \<and> lenPairs argd \<noteq> 0)"
        using loopBody_Continue_word [OF _ _ Continue] by auto
      with "1.IH"(1) [OF True Continue] True Continue show ?thesis
        by (auto simp: parseLoop_Continue iterations_Continue)
    next
      case (Return r)
      have "(\<exists>a. r = Fail a MisplacedFlags) \<longleftrightarrow>
          (\<not> isIgnored (args ! i) \<and> \<not> isFlag (args ! i) \<and> \<not> w \<and> lenPairs argd \<noteq> 0)"
      proof (cases "isFlag (args ! i) \<or> isIgnored (args ! i)")
        case True
        from loopBody_Return_flag [OF True Return] True show ?thesis by auto
      next
        case False
        with Return have "(\<not> w \<and> lenPairs argd \<noteq> 0 \<and> r = Fail argd MisplacedFlags)
            \<or> (w \<and> length (drop i args) = 1 \<and> r = Ok (setText argd (args ! i)))"
          using loopBody_Return_word by blast
        with False show ?thesis by auto
      qed
      with True Return show ?thesis
        by (simp add: parseLoop_Return iterations_Return)
    next
      case (Recurse k t)
      from loopBody_Recurse_word [OF True Recurse]
      have k: "k = i" and w: "w" and word: "\<not> isFlag (args ! i)" "\<not> isIgnored (args ! i)"
        by simp_all
      from True k word have "\<And>b. parseLoop (drop k args) 0 newArgv False \<noteq> Fail b MisplacedFlags"
        by (intro no_misplaced_after_name) (simp add: lenPairs_newArgv)
      then have "\<And>a. parseLoop args i argd w \<noteq> Fail a MisplacedFlags"
        using True Recurse
        by (auto simp: parseLoop_Recurse parseArgs_def split: outcome.splits)
      with True Recurse w show ?thesis by (simp add: iterations_Recurse)
    qed
  qed
qed

lemma branch_iff:
  "Sub argd = None \<Longrightarrow> parseLoop args i argd w = Ok a \<Longrightarrow>
   (Sub a \<noteq> None \<longleftrightarrow>
    (\<exists>(j, ad, v) \<in> set (iterations args i argd w).
       v \<and> \<not> isIgnored (args ! j) \<and> \<not> isFlag (args ! j) \<and> 2 \<le> length (drop j args)))"
proof (induction args i argd w rule: parseLoop.induct)
  case (1 args i argd w)
  show ?case
  proof (cases "i < length args")
    case False
    with "1.prems" show ?thesis by (simp add: parseLoop_end iterations_end)
  next
    case True
    show ?thesis
    proof (cases "loopBody args i argd w")
      case (Continue i' a' w')
      have here: "\<not> (w \<and> \<not> isIgnored (args ! i) \<and> \<not> isFlag (args ! i) \<and> 2 \<le> length (drop i args))"
        using Continue loopBody_Continue_word by blast
      from Continue "1.prems"(1) have "Sub a' = None"
        using loopBody_Continue_inv by fastforce
      moreover from "1.prems"(2) True Continue have "parseLoop args (i' + 1) a' w' = Ok a"
        by (simp add: parseLoop_Continue)
      ultimately show ?thesis
        using "1.IH"(1) [OF True Continue] here True Continue
        by (auto simp: iterations_Continue)
    next
      case (Return r)
      with "1.prems"(2) True have r: "r = Ok a" by (simp add: parseLoop_Return)
      have "\<not> (isFlag (args ! i) \<or> isIgnored (args ! i))"
        using loopBody_Return_flag [OF _ Return] r by auto
      with Return r have "length (drop i args) = 1 \<and> a = setText argd (args ! i)"
        using loopBody_Return_word by blast
      with "1.prems"(1) True Return show ?thesis
        by (simp add: iterations_Return setText_def)
    next
      case (Recurse k t)
      from loopBody_Recurse_word [OF True Recurse]
      have c: "w \<and> \<not> isIgnored (args ! i) \<and> \<not> isFlag (args ! i) \<and> 2 \<le> length (drop i args)"
        by simp
      from "1.prems"(2) True Recurse have "Sub a \<noteq> None"
        by (auto simp: parseLoop_Recurse setText_def setSub_def split: outcome.splits)
      with c True Recurse show ?thesis by (simp add: iterations_Recurse)
    qed
  qed
qed

lemma nodes_unfold: "nodes a = a # (case Sub a of None \<Rightarrow> [] | Some s \<Rightarrow> nodes s)"
  by (cases a) simp

lemma parseLoop_pairsOk:
  "pairsOk argd \<Longrightarrow> (\<forall>s. Sub argd = Some s \<longrightarrow> (\<forall>n \<in> set (nodes s). pairsOk n)) \<Longrightarrow>
   parseLoop args i argd w = Ok a \<Longrightarrow> \<forall>n \<in> set (nodes a). pairsOk n"
proof (induction args i argd w arbitrary: a rule: parseLoop.induct)
  case (1 args i argd w)
  have argd_ok: "\<forall>n \<in> set (nodes argd). pairsOk n"
  proof (cases "Sub argd")
    case None
    with "1.prems"(1) show ?thesis by (subst nodes_unfold) simp
  next
    case (Some s)
    with "1.prems"(1,2) show ?thesis by (subst nodes_unfold) simp
  qed
  show ?case
  proof (cases "i < length args")
    case False
    with "1.prems"(3) argd_ok show ?thesis by (simp add: parseLoop_end)
  next
    case True
    show ?thesis
    proof (cases "loopBody args i argd w")
      case (Continue i' a' w')
      from Continue "1.prems"(1,2) have "pairsOk a'" and "Sub a' = Sub argd"
        using loopBody_Continue_inv by blast+
      moreover from "1.prems"(3) True Continue have "parseLoop args (i' + 1) a' w' = Ok a"
        by (simp add: parseLoop_Continue)
      ultimately show ?thesis
        using "1.IH"(1) [OF True Continue] "1.prems"(2) by simp
    next
      case (Return r)
      with "1.prems"(3) True have r: "r = Ok a" by (simp add: parseLoop_Return)
      have "\<not> (isFlag (args ! i) \<or> isIgnored (args ! i))"
        using loopBody_Return_flag [OF _ Return] r by auto
      with Return r have a: "a = setText argd (args ! i)"
        using loopBody_Return_word by blast
      have "pairsOk a" and "Sub a = Sub argd"
        using "1.prems"(1) by (simp_all add: a setText_def pairsOk_def)
      with argd_ok show ?thesis
        by (subst nodes_unfold, subst (asm) nodes_unfold) simp
    next
      case (Recurse k t)
      from "1.prems"(3) True Recurse obtain sub where
        sub: "parseLoop (drop k args) 0 newArgv False = Ok sub"
        and a: "a = setText (setSub argd sub) (Join (drop t args) '' '')"
        by (auto simp: parseLoop_Recurse parseArgs_def split: outcome.splits)
      have "pairsOk newArgv" and "Sub newArgv = None"
        by (simp_all add: newArgv_def pairsOk_def)
      then have "\<forall>n \<in> set (nodes sub). pairsOk n"
        using "1.IH"(2) [OF True Recurse _ _ sub] by simp
      moreover have "pairsOk a" and "Sub a = Some sub"
        using "1.prems"(1) by (simp_all add: a setText_def setSub_def pairsOk_def)
      ultimately show ?thesis
        by (subst nodes_unfold) simp
    qed
  qed
qed

lemma flags_only_name:
  "\<forall>j. i \<le> j \<and> j < length args \<longrightarrow> isFlag (args ! j) \<or> isIgnored (args ! j) \<Longrightarrow>
   parseLoop args i argd w = Ok a \<Longrightarrow> Name a = Name argd"
proof (induction args i argd w rule: parseLoop.induct)
  case (1 args i argd w)
  show ?case
  proof (cases "i < length args")
    case False
    with "1.prems" show ?thesis by (simp add: parseLoop_end)
  next
    case True
    with "1.prems"(1) have tok: "isFlag (args ! i) \<or> isIgnored (args ! i)" by simp
    show ?thesis
    proof (cases "loopBody args i argd w")
      case (Continue i' a' w')
      from loopBody_Continue_flag [OF tok Continue] have "Name a' = Name argd" by simp
      moreover from Continue have "i \<le> i'" by (rule loopBody_cursor)
      with "1.prems"(1) have "\<forall>j. i' + 1 \<le> j \<and> j < length args \<longrightarrow>
          isFlag (args ! j) \<or> isIgnored (args ! j)" by simp
      moreover from "1.prems"(2) True Continue have "parseLoop args (i' + 1) a' w' = Ok a"
        by (simp add: parseLoop_Continue)
      ultimately show ?thesis using "1.IH"(1) [OF True Continue] by simp
    next
      case (Return r)
      with "1.prems"(2) True have "r = Ok a" by (simp add: parseLoop_Return)
      with loopBody_Return_flag [OF tok Return] show ?thesis by auto
    next
      case (Recurse k t)
      with loopBody_Recurse_word [OF True Recurse] tok show ?thesis by simp
    qed
  qed
qed

lemma completeFlag_body:
  assumes "completeFlag (args ! i)" and "Pairs argd \<noteq> None"
  shows "\<exists>a'. loopBody args i argd w = Continue i a' w"
proof -
  define opt where "opt = TrimLeft (args ! i) ''-''"
  define pos where "pos = Index opt CHR ''=''"
  define key where "key = TrimSpace (take (nat pos) opt)"
  define v where "v = TrimSpace (drop (nat (pos + 1)) opt)"
  from assms(1) have flag: "isFlag (args ! i)"
    and c: "pos = -1 \<or> ((key = [] \<or> v \<noteq> []) \<and> (isListEnd v \<or> \<not> isList v))"
    by (simp_all add: completeFlag_def Let_def opt_def pos_def key_def v_def)
  show ?thesis
  proof (cases "pos = -1")
    case True
    moreover have "collectValues args i [] = Inr ([], i)"
      by (simp add: collectValues_plain isList_def HasPrefix_def)
    moreover obtain a' where "setPair argd opt [''true''] = Some a'"
      using setPair_Some [OF assms(2)] by blast
    ultimately show ?thesis
      by (simp add: loopBody_flag [OF flag] Let_def opt_def [symmetric] pos_def [symmetric])
  next
    case False
    with c have "isList v \<longrightarrow> isListEnd v" and kv: "key = [] \<or> v \<noteq> []" by auto
    then obtain vs where vs: "collectValues args i v = Inr (vs, i)"
      using collectValues_closed by blast
    then have e: "vs = [] \<longleftrightarrow> v = []" by (rule collectValues_empty)
    obtain a' where a': "setPair argd key vs = Some a'"
      using setPair_Some [OF assms(2)] by blast
    show ?thesis
    proof (cases "key = []")
      case True
      with False vs show ?thesis
        by (simp add: loopBody_flag [OF flag] Let_def opt_def [symmetric] pos_def [symmetric]
            key_def [symmetric] v_def [symmetric])
    next
      case k: False
      with kv e have "vs \<noteq> []" by simp
      with False vs a' k show ?thesis
        by (simp add: loopBody_flag [OF flag] Let_def opt_def [symmetric] pos_def [symmetric]
            key_def [symmetric] v_def [symmetric])
    qed
  qed
qed

lemma complete_flags_ok:
  "\<forall>j. i \<le> j \<and> j < length args \<longrightarrow> completeFlag (args ! j) \<Longrightarrow> Pairs argd \<noteq> None \<Longrightarrow>
   \<exists>a. parseLoop args i argd w = Ok a"
proof (induction args i argd w rule: parseLoop.induct)
  case (1 args i argd w)
  show ?case
  proof (cases "i < length args")
    case False
    then show ?thesis by (simp add: parseLoop_end)
  next
    case True
    with "1.prems"(1) have "completeFlag (args ! i)" by simp
    from completeFlag_body [OF this "1.prems"(2)]
    obtain a' where body: "loopBody args i argd w = Continue i a' w" by blast
    with "1.prems"(2) have "Pairs a' \<noteq> None" using loopBody_Continue_inv by blast
    moreover from "1.prems"(1) have "\<forall>j. i + 1 \<le> j \<and> j < length args \<longrightarrow> completeFlag (args ! j)"
      by simp
    ultimately have "\<exists>a. parseLoop args (i + 1) a' w = Ok a"
      using "1.IH"(1) [OF True body] by simp
    with True body show ?thesis by (simp add: parseLoop_Continue)
  qed
qed

lemma completeFlag_isFlag: "completeFlag t \<Longrightarrow> isFlag t"
  by (simp add: completeFlag_def Let_def)

lemma pairsOk_lookup:
  "pairsOk n \<Longrightarrow> Pairs n \<noteq> None \<and> (\<forall>k vs. getPair n k = Some vs \<longrightarrow> vs \<noteq> [])"
  by (auto simp: pairsOk_def getPair_def list_all_iff split: option.splits dest!: map_of_SomeD)

lemma visits_end: "\<not> i < length args \<Longrightarrow> visits args i argd w = []"
  by (subst visits.simps) simp

lemma visits_Continue:
  "i < length args \<Longrightarrow> loopBody args i argd w = Continue i' a' w' \<Longrightarrow>
   visits args i argd w = (args, i, argd, w) # visits args (i' + 1) a' w'"
  by (subst visits.simps) simp

lemma visits_Return:
  "i < length args \<Longrightarrow> loopBody args i argd w = Return r \<Longrightarrow>
   visits args i argd w = [(args, i, argd, w)]"
  by (subst visits.simps) simp

lemma visits_Recurse:
  "i < length args \<Longrightarrow> loopBody args i argd w = Recurse k t \<Longrightarrow>
   visits args i argd w = (args, i, argd, w) # visits (drop k args) 0 newArgv False"
  by (subst visits.simps) simp

text \<open>An error raised at an iteration of any level is the error of the whole call.\<close>

lemma visits_Fail:
  "(sl, j, ad, v) \<in> set (visits args i argd w) \<Longrightarrow> parseLoop sl j ad v = Fail b e \<Longrightarrow>
   \<exists>a. parseLoop args i argd w = Fail a e"
proof (induction args i argd w rule: parseLoop.induct)
  case (1 args i argd w)
  show ?case
  proof (cases "i < length args")
    case False
    with "1.prems"(1) show ?thesis by (simp add: visits_end)
  next
    case True
    show ?thesis
    proof (cases "(sl, j, ad, v) = (args, i, argd, w)")
      case True
      with "1.prems"(2) show ?thesis by auto
    next
      case other: False
      show ?thesis
      proof (cases "loopBody args i argd w")
        case (Continue i' a' w')
        with "1.prems"(1) True other have "(sl, j, ad, v) \<in> set (visits args (i' + 1) a' w')"
          by (auto simp: visits_Continue)
        from "1.IH"(1) [OF True Continue this "1.prems"(2)] True Continue show ?thesis
          by (simp add: parseLoop_Continue)
      next
        case (Return r)
        with "1.prems"(1) True other show ?thesis by (auto simp: visits_Return)
      next
        case (Recurse k t)
        with "1.prems"(1) True other
        have "(sl, j, ad, v) \<in> set (visits (drop k args) 0 newArgv False)"
          by (auto simp: visits_Recurse)
        from "1.IH"(2) [OF True Recurse this "1.prems"(2)] True Recurse show ?thesis
          by (auto simp: parseLoop_Recurse parseArgs_def)
      qed
    qed
  qed
qed

section \<open>Facts about strings\<close>










lemma Split_none: "c \<notin> set s \<Longrightarrow> Split s c = [s]"
  by (induction s) auto

lemma Split_at: "c \<notin> set a \<Longrightarrow> Split (a @ c # b) c = a # Split b c"
  by (induction a) auto


lemma TrimSpace_k: "TrimSpace ''k'' = ''k''"
  by code_simp













section \<open>Claims\<close>

text \<open>
  C1. The claim is that \<open>Parse\<close> always returns a node or an error, and that the scan for
  the elements of a list spanning several tokens never reads past the last token, also
  when no token ending in \<open>]\<close> follows. The scan itself is guarded, but the test for the
  closing token right after it reads \<open>args[i+1]\<close> unguarded: on \<open>p --k=[a b\<close> the scan
  stops at the last token and the read is past the end, so the call panics with an
  index out of range instead of returning.
\<close>

theorem C1_unclosed_list_panics:
  "Parse ''p --k=[a b'' = Panic IndexOutOfRange"
  by code_simp

text \<open>
  C2. The claim is that \<open>name --k=v1,v2\<close> parses with \<open>Pairs["k"]\<close> the two values \<open>v1\<close>
  and \<open>v2\<close>. A value is split at commas only when it is a list in brackets; without
  them the text after \<open>=\<close> is stored whole: on \<open>p --k=v1,v2\<close> the key \<open>k\<close> has the single
  value \<open>v1,v2\<close>.
\<close>

theorem C2_comma_value_not_split:
  "Parse ''p --k=v1,v2'' = Ok (Argv ''p'' None [] (Some [(''k'', [''v1,v2''])]))
   \<and> getPair (Argv ''p'' None [] (Some [(''k'', [''v1,v2''])])) ''k'' \<noteq> Some [''v1'', ''v2'']"
  by code_simp

text \<open>
  C2, amended. For every name token (without a space, not ignorable, not a flag) and
  every \<open>v1\<close> and \<open>v2\<close> without a space whose comma-joined value has no white space
  around it and does not begin with a bracket, parsing \<open>name --k=v1,v2\<close> succeeds with
  the node named \<open>name\<close>, a nil \<open>Sub\<close>, an empty \<open>Text\<close>, and \<open>Pairs\<close> holding for \<open>k\<close>
  the one-element sequence of the whole string \<open>v1,v2\<close>.
\<close>

theorem C2_unbracketed_value_is_one_string:
  assumes "CHR '' '' \<notin> set name" and "\<not> isIgnored name" and "\<not> isFlag name"
    and "CHR '' '' \<notin> set v1 \<union> set v2"
    and "TrimSpace (v1 @ '','' @ v2) = v1 @ '','' @ v2"
    and "\<not> isList (v1 @ '','' @ v2)"
  shows "Parse (name @ '' --k='' @ v1 @ '','' @ v2)
    = Ok (Argv name None [] (Some [(''k'', [v1 @ '','' @ v2])]))"
proof -
  define v where "v = v1 @ '','' @ v2"
  define tok where "tok = ''--k='' @ v"
  define args where "args = [name, tok]"
  have v_ne: "v \<noteq> []" by (simp add: v_def)
  have trim: "TrimSpace v = v" using assms(5) by (simp only: v_def)
  have "CHR '' '' \<notin> set tok"
    using assms(4) by (auto simp: tok_def v_def)
  then have split: "Split (name @ '' --k='' @ v1 @ '','' @ v2) CHR '' '' = args"
    using Split_at [OF assms(1), of tok] by (simp add: Split_none args_def tok_def v_def)
  have nth: "args ! Suc 0 = tok" by (simp add: args_def)
  have flag: "isFlag (args ! 1)"
    by (simp add: args_def tok_def isFlag_def HasPrefix_def TrimLeft_def)
  have opt: "TrimLeft tok ''-'' = ''k='' @ v"
    by (simp add: tok_def TrimLeft_def)
  have vals: "collectValues args (Suc 0) v = Inr ([v], Suc 0)"
    using assms(6) v_ne by (simp add: collectValues_plain v_def)
  have step0: "loopBody args 0 newArgv False = Continue 0 (setName newArgv name) True"
    using assms(2,3) by (simp add: loopBody_name args_def lenPairs_newArgv)
  have step1: "loopBody args 1 (setName newArgv name) True
      = Continue 1 (Argv name None [] (Some [(''k'', [v])])) True"
    using loopBody_flag [OF flag, of "setName newArgv name" True]
    by (simp add: nth opt Index_def TrimSpace_k trim vals setPair_def setName_def newArgv_def)
  have "parseLoop args 0 newArgv False = parseLoop args (0 + 1) (setName newArgv name) True"
    using step0 by (intro parseLoop_Continue) (simp add: args_def)
  also have "\<dots> = parseLoop args (1 + 1) (Argv name None [] (Some [(''k'', [v])])) True"
    using step1 by (simp add: parseLoop_Continue args_def)
  also have "\<dots> = Ok (Argv name None [] (Some [(''k'', [v])]))"
    by (simp add: parseLoop_end args_def)
  finally have run: "parseLoop args 0 newArgv False = Ok (Argv name None [] (Some [(''k'', [v])]))" .
  have "Parse (name @ '' --k='' @ v1 @ '','' @ v2)
      = parseArgs (Split (name @ '' --k='' @ v1 @ '','' @ v2) CHR '' '')"
    by (simp add: Parse_def)
  also have "\<dots> = parseLoop args 0 newArgv False"
    by (simp only: split parseArgs_def)
  finally show ?thesis by (simp only: run v_def)
qed

theorem C2_unbracketed_value_is_one_string_witness:
  "Parse (''p'' @ '' --k='' @ ''v1'' @ '','' @ ''v2'')
    = Ok (Argv ''p'' None [] (Some [(''k'', [''v1'' @ '','' @ ''v2''])]))"
proof -
  have "CHR '' '' \<notin> set ''p''" and "\<not> isIgnored ''p''" and "\<not> isFlag ''p''"
    and "CHR '' '' \<notin> set ''v1'' \<union> set ''v2''"
    and "TrimSpace (''v1'' @ '','' @ ''v2'') = ''v1'' @ '','' @ ''v2''"
    and "\<not> isList (''v1'' @ '','' @ ''v2'')"
    by code_simp+
  then show ?thesis by (rule C2_unbracketed_value_is_one_string)
qed




text \<open>
  C4. The claim closes with: an input consisting only of flags parses successfully with
  an empty name. A flag met before any name is no \<open>MisplacedFlags\<close> error, but it can
  fail on its own account: the input \<open>--k=\<close> is one flag and fails with
  \<open>MissingFlagValue\<close>.
\<close>

theorem C4_flags_only_missing_value:
  "list_all isFlag (Split ''--k='' CHR '' '')
   \<and> Parse ''--k='' = Fail (Argv [] None [] (Some [])) (MissingFlagValue ''k='')"
  by code_simp

text \<open>
  C4, amended. At every level (every call of \<open>parseArgs\<close>), the call fails with
  \<open>MisplacedFlags\<close> exactly when the loop encounters a token that is neither ignorable
  nor a flag while \<open>withCommand\<close> is still false and \<open>Pairs\<close> already has entries. A flag
  met before any name never raises that error by itself: the body on a flag does not
  return it, and a token sequence of flags only never fails with it and has an empty
  name whenever it parses. It does parse, with an empty name, when every flag is
  complete on its own: it has no \<open>=\<close>, or after the \<open>=\<close> a value that is empty only if
  the key is and that does not open a list the token leaves unclosed.
\<close>

theorem C4_misplaced_flags:
  "((\<exists>a. parseArgs args = Fail a MisplacedFlags) \<longleftrightarrow>
      (\<exists>(i, argd, w) \<in> set (iterations args 0 newArgv False).
         \<not> isIgnored (args ! i) \<and> \<not> isFlag (args ! i) \<and> \<not> w \<and> lenPairs argd \<noteq> 0))
   \<and> (\<forall>i argd a. isFlag (args ! i) \<longrightarrow>
         loopBody args i argd False \<noteq> Return (Fail a MisplacedFlags))
   \<and> ((\<forall>t \<in> set args. isFlag t) \<longrightarrow>
         (\<forall>a. parseArgs args \<noteq> Fail a MisplacedFlags)
         \<and> (\<forall>a. parseArgs args = Ok a \<longrightarrow> Name a = []))
   \<and> ((\<forall>t \<in> set args. completeFlag t) \<longrightarrow> (\<exists>a. parseArgs args = Ok a \<and> Name a = []))"
proof (intro conjI allI impI)
  show "(\<exists>a. parseArgs args = Fail a MisplacedFlags) \<longleftrightarrow>
      (\<exists>(i, argd, w) \<in> set (iterations args 0 newArgv False).
         \<not> isIgnored (args ! i) \<and> \<not> isFlag (args ! i) \<and> \<not> w \<and> lenPairs argd \<noteq> 0)"
    unfolding parseArgs_def by (rule misplaced_iff)
next
  fix i argd a
  assume "isFlag (args ! i)"
  then show "loopBody args i argd False \<noteq> Return (Fail a MisplacedFlags)"
    using loopBody_Return_flag [of args i argd False "Fail a MisplacedFlags"] by auto
next
  fix a
  assume flags: "\<forall>t \<in> set args. isFlag t"
  have "\<not> (\<exists>(i, argd, w) \<in> set (iterations args 0 newArgv False).
         \<not> isIgnored (args ! i) \<and> \<not> isFlag (args ! i) \<and> \<not> w \<and> lenPairs argd \<noteq> 0)"
    using flags iterations_bounds by fastforce
  then show "parseArgs args \<noteq> Fail a MisplacedFlags"
    unfolding parseArgs_def using misplaced_iff by blast
next
  fix a
  assume flags: "\<forall>t \<in> set args. isFlag t" and ok: "parseArgs args = Ok a"
  from flags have "\<forall>j. 0 \<le> j \<and> j < length args \<longrightarrow> isFlag (args ! j) \<or> isIgnored (args ! j)"
    by simp
  from flags_only_name [OF this ok [unfolded parseArgs_def]]
  show "Name a = []" by (simp add: newArgv_def)
next
  assume flags: "\<forall>t \<in> set args. completeFlag t"
  then have c: "\<forall>j. 0 \<le> j \<and> j < length args \<longrightarrow> completeFlag (args ! j)" by simp
  have "Pairs newArgv \<noteq> None" by (simp add: newArgv_def)
  from complete_flags_ok [OF c this]
  obtain a where ok: "parseLoop args 0 newArgv False = Ok a" by blast
  from c have "\<forall>j. 0 \<le> j \<and> j < length args \<longrightarrow> isFlag (args ! j) \<or> isIgnored (args ! j)"
    by (simp add: completeFlag_isFlag)
  from flags_only_name [OF this ok] have "Name a = []" by (simp add: newArgv_def)
  with ok show "\<exists>a. parseArgs args = Ok a \<and> Name a = []" by (simp add: parseArgs_def)
qed

theorem C4_misplaced_flags_witness:
  "(\<exists>a. parseArgs [''--x=1'', ''name''] = Fail a MisplacedFlags)
   \<and> (\<exists>a. parseArgs [''--x=1'', ''-h''] = Ok a \<and> Name a = [])"
proof -
  have "list_ex (\<lambda>(i, argd, w). \<not> isIgnored ([''--x=1'', ''name''] ! i)
          \<and> \<not> isFlag ([''--x=1'', ''name''] ! i) \<and> \<not> w \<and> lenPairs argd \<noteq> 0)
        (iterations [''--x=1'', ''name''] 0 newArgv False)"
    by code_simp
  then have "\<exists>a. parseArgs [''--x=1'', ''name''] = Fail a MisplacedFlags"
    using C4_misplaced_flags [of "[''--x=1'', ''name'']"] by (simp add: list_ex_iff)
  moreover have "list_all completeFlag [''--x=1'', ''-h'']" by code_simp
  then have "\<exists>a. parseArgs [''--x=1'', ''-h''] = Ok a \<and> Name a = []"
    using C4_misplaced_flags [of "[''--x=1'', ''-h'']"] by (simp add: list_all_iff)
  ultimately show ?thesis by simp
qed

text \<open>
  C5. Once the name of the current level is set (\<open>withCommand\<close> is true), when the loop
  encounters a token that is not a flag and that token is the only one left of the slice
  the current call examines, the call returns at once, with \<open>Text\<close> set to that token,
  \<open>Sub\<close> still nil and nothing else changed, and without a recursive call. On
  \<open>example --rack=20 push git@ghu.com/fla.git\<close> the child node has the name \<open>push\<close>,
  the text \<open>git@ghu.com/fla.git\<close> and no child of its own.
\<close>

theorem C5_single_trailing_token:
  assumes "i < length args" and "\<not> isIgnored (args ! i)" and "\<not> isFlag (args ! i)"
    and "length (drop i args) = 1" and "Sub argd = None"
  shows "parseLoop args i argd True = Ok (Argv (Name argd) None (args ! i) (Pairs argd))
    \<and> (case Parse ''example --rack=20 push git@ghu.com/fla.git'' of
          Ok a \<Rightarrow> map_option Name (Sub a) = Some ''push''
                 \<and> map_option Text (Sub a) = Some ''git@ghu.com/fla.git''
                 \<and> map_option Sub (Sub a) = Some None
        | Fail a err \<Rightarrow> False
        | Panic p \<Rightarrow> False)"
proof
  from assms have "loopBody args i argd True = Return (Ok (setText argd (args ! i)))"
    by (simp add: loopBody_word branchOut_def)
  with assms show "parseLoop args i argd True = Ok (Argv (Name argd) None (args ! i) (Pairs argd))"
    by (simp add: parseLoop_Return setText_def)
next
  show "case Parse ''example --rack=20 push git@ghu.com/fla.git'' of
          Ok a \<Rightarrow> map_option Name (Sub a) = Some ''push''
                 \<and> map_option Text (Sub a) = Some ''git@ghu.com/fla.git''
                 \<and> map_option Sub (Sub a) = Some None
        | Fail a err \<Rightarrow> False
        | Panic p \<Rightarrow> False"
    by code_simp
qed

theorem C5_single_trailing_token_witness:
  "parseLoop [''push'', ''x.git''] 1 (Argv ''push'' None [] (Some [])) True
     = Ok (Argv ''push'' None ''x.git'' (Some []))"
proof -
  have "\<not> isIgnored ([''push'', ''x.git''] ! 1)" and "\<not> isFlag ([''push'', ''x.git''] ! 1)"
    by code_simp+
  from C5_single_trailing_token [OF _ this, of "Argv ''push'' None [] (Some [])"]
  show ?thesis by simp
qed

text \<open>
  C6. Once the name of the current level is set, a token that is not a flag with two or
  more tokens left (itself included) makes the call parse the rest of the tokens, from
  that token on, recursively; it returns the error of that parse if there is one, and
  otherwise returns at once with the child as \<open>Sub\<close> and \<open>Text\<close> the rest of the tokens
  joined with spaces. A successful call has a non-nil \<open>Sub\<close> exactly when its loop
  encountered such a token.
\<close>

theorem C6_branch_into_sub:
  "(i < length args \<and> \<not> isIgnored (args ! i) \<and> \<not> isFlag (args ! i) \<and> 2 \<le> length (drop i args)
      \<longrightarrow> parseLoop args i argd True =
           (case parseArgs (drop i args) of
              Ok sub \<Rightarrow> Ok (Argv (Name argd) (Some sub) (Join (drop i args) '' '') (Pairs argd))
            | Fail sub err \<Rightarrow> Fail argd err
            | Panic p \<Rightarrow> Panic p))
   \<and> (\<forall>a. parseArgs args = Ok a \<longrightarrow>
         (Sub a \<noteq> None \<longleftrightarrow>
          (\<exists>(j, ad, v) \<in> set (iterations args 0 newArgv False).
             v \<and> \<not> isIgnored (args ! j) \<and> \<not> isFlag (args ! j) \<and> 2 \<le> length (drop j args))))"
proof (intro conjI impI allI)
  assume a: "i < length args \<and> \<not> isIgnored (args ! i) \<and> \<not> isFlag (args ! i)
    \<and> 2 \<le> length (drop i args)"
  then have "loopBody args i argd True = Recurse i i"
    by (simp add: loopBody_word branchOut_def)
  with a show "parseLoop args i argd True =
           (case parseArgs (drop i args) of
              Ok sub \<Rightarrow> Ok (Argv (Name argd) (Some sub) (Join (drop i args) '' '') (Pairs argd))
            | Fail sub err \<Rightarrow> Fail argd err
            | Panic p \<Rightarrow> Panic p)"
    by (simp add: parseLoop_Recurse setText_def setSub_def split: outcome.splits)
next
  fix a
  assume "parseArgs args = Ok a"
  then have "parseLoop args 0 newArgv False = Ok a" by (simp add: parseArgs_def)
  moreover have "Sub newArgv = None" by (simp add: newArgv_def)
  ultimately show "Sub a \<noteq> None \<longleftrightarrow>
          (\<exists>(j, ad, v) \<in> set (iterations args 0 newArgv False).
             v \<and> \<not> isIgnored (args ! j) \<and> \<not> isFlag (args ! j) \<and> 2 \<le> length (drop j args))"
    by (rule branch_iff [rotated])
qed

theorem C6_branch_into_sub_witness:
  "parseLoop [''a'', ''b'', ''c''] 1 (Argv ''a'' None [] (Some [])) True
     = Ok (Argv ''a'' (Some (Argv ''b'' None ''c'' (Some []))) ''b c'' (Some []))
   \<and> list_ex (\<lambda>(j, ad, v). v \<and> \<not> isIgnored ([''a'', ''b'', ''c''] ! j)
         \<and> \<not> isFlag ([''a'', ''b'', ''c''] ! j) \<and> 2 \<le> length (drop j [''a'', ''b'', ''c'']))
       (iterations [''a'', ''b'', ''c''] 0 newArgv False)"
proof -
  have h: "\<not> isIgnored ([''a'', ''b'', ''c''] ! 1)" "\<not> isFlag ([''a'', ''b'', ''c''] ! 1)"
    by code_simp+
  have sub: "parseArgs (drop 1 [''a'', ''b'', ''c'']) = Ok (Argv ''b'' None ''c'' (Some []))"
    by code_simp
  have top: "parseArgs [''a'', ''b'', ''c'']
      = Ok (Argv ''a'' (Some (Argv ''b'' None ''c'' (Some []))) ''b c'' (Some []))"
    by code_simp
  have "parseLoop [''a'', ''b'', ''c''] 1 (Argv ''a'' None [] (Some [])) True
     = Ok (Argv ''a'' (Some (Argv ''b'' None ''c'' (Some []))) ''b c'' (Some []))"
    using C6_branch_into_sub [of 1 "[''a'', ''b'', ''c'']" "Argv ''a'' None [] (Some [])"] h sub
    by simp
  moreover have "list_ex (\<lambda>(j, ad, v). v \<and> \<not> isIgnored ([''a'', ''b'', ''c''] ! j)
         \<and> \<not> isFlag ([''a'', ''b'', ''c''] ! j) \<and> 2 \<le> length (drop j [''a'', ''b'', ''c'']))
       (iterations [''a'', ''b'', ''c''] 0 newArgv False)"
    using C6_branch_into_sub [of 1 "[''a'', ''b'', ''c'']" "Argv ''a'' None [] (Some [])"] top
    by (simp add: list_ex_iff)
  ultimately show ?thesis by simp
qed

text \<open>
  C7. On the input \<open>p --dirs=[drum flag kick]\<close> the parse succeeds and the flag \<open>dirs\<close>
  has exactly the values \<open>drum\<close>, \<open>flag\<close>, \<open>kick\<close>, in the order of the tokens and without
  the brackets.
\<close>

theorem C7_list_with_spaces:
  "Parse ''p --dirs=[drum flag kick]'' =
     Ok (Argv ''p'' None [] (Some [(''dirs'', [''drum'', ''flag'', ''kick''])]))
   \<and> getPair (Argv ''p'' None [] (Some [(''dirs'', [''drum'', ''flag'', ''kick''])])) ''dirs''
       = Some [''drum'', ''flag'', ''kick'']"
  by code_simp

text \<open>
  C8. A flag whose text without the dashes has a non-empty key before its first \<open>=\<close> and
  for which no values are collected makes the call that meets it fail with
  \<open>MissingFlagValue\<close>, and with it \<open>Parse\<close>, at whatever level of an input the flag is met;
  no values are collected exactly when the text after the \<open>=\<close> is empty, which a list is
  not. Whenever the body on such a flag stores an entry and continues, the entry under
  the key has a non-empty value sequence.
\<close>

theorem C8_missing_flag_value:
  assumes "i < length args" and "isFlag (args ! i)"
    and "opt = TrimLeft (args ! i) ''-''" and "pos = Index opt CHR ''=''" and "pos \<noteq> -1"
    and "key = TrimSpace (take (nat pos) opt)" and "key \<noteq> []"
    and "value = TrimSpace (drop (nat (pos + 1)) opt)"
  shows "(value = [] \<longrightarrow> parseLoop args i argd w = Fail argd (MissingFlagValue opt))
    \<and> (value = [] \<longrightarrow>
         (\<forall>s. s \<noteq> [] \<and> (args, i, argd, w) \<in> set (visits (Split s CHR '' '') 0 newArgv False)
            \<longrightarrow> (\<exists>a. Parse s = Fail a (MissingFlagValue opt))))
    \<and> (\<forall>vs i'. collectValues args i value = Inr (vs, i') \<longrightarrow> (vs = [] \<longleftrightarrow> value = []))
    \<and> (\<forall>i' argd' w'. loopBody args i argd w = Continue i' argd' w' \<longrightarrow>
          (\<exists>vs. getPair argd' key = Some vs \<and> vs \<noteq> []))"
proof (intro conjI impI allI)
  assume "value = []"
  then have "collectValues args i value = Inr ([], i)"
    by (simp add: collectValues_plain isList_def HasPrefix_def)
  with assms have "loopBody args i argd w = Return (Fail argd (MissingFlagValue opt))"
    by (simp add: loopBody_flag Let_def)
  with assms(1) show here: "parseLoop args i argd w = Fail argd (MissingFlagValue opt)"
    by (simp add: parseLoop_Return)
  fix s
  assume "s \<noteq> [] \<and> (args, i, argd, w) \<in> set (visits (Split s CHR '' '') 0 newArgv False)"
  then have "s \<noteq> []"
    and "\<exists>a. parseLoop (Split s CHR '' '') 0 newArgv False = Fail a (MissingFlagValue opt)"
    using here visits_Fail by blast+
  then show "\<exists>a. Parse s = Fail a (MissingFlagValue opt)"
    by (simp add: Parse_def parseArgs_def)
next
  fix vs i'
  assume "collectValues args i value = Inr (vs, i')"
  then show "vs = [] \<longleftrightarrow> value = []" by (rule collectValues_empty)
next
  fix i' argd' w'
  assume c: "loopBody args i argd w = Continue i' argd' w'"
  show "\<exists>vs. getPair argd' key = Some vs \<and> vs \<noteq> []"
  proof (cases "collectValues args i value")
    case (Inl p)
    with c assms show ?thesis by (simp add: loopBody_flag Let_def)
  next
    case (Inr r)
    obtain vs j where r: "r = (vs, j)" by (cases r)
    with Inr c assms have "vs \<noteq> []" and "setPair argd key vs = Some argd'"
      by (auto simp: loopBody_flag Let_def split: if_splits option.splits)
    then show ?thesis
      by (auto simp: setPair_def getPair_def update_conv' split: option.splits)
  qed
qed

theorem C8_missing_flag_value_witness:
  "parseLoop [''p'', ''--k=''] 1 (Argv ''p'' None [] (Some [])) True
     = Fail (Argv ''p'' None [] (Some [])) (MissingFlagValue ''k='')
   \<and> (\<exists>a. Parse ''a p --k='' = Fail a (MissingFlagValue ''k=''))
   \<and> (\<exists>vs. getPair (Argv ''p'' None [] (Some [(''k'', [''v''])])) ''k'' = Some vs \<and> vs \<noteq> [])"
proof -
  have f1: "isFlag ([''p'', ''--k=''] ! 1)" and f2: "isFlag ([''p'', ''--k=v''] ! 1)"
    by code_simp+
  have o1: "''k='' = TrimLeft ([''p'', ''--k=''] ! 1) ''-''"
    and o2: "''k=v'' = TrimLeft ([''p'', ''--k=v''] ! 1) ''-''"
    by code_simp+
  have p1: "1 = Index ''k='' CHR ''=''" and p2: "1 = Index ''k=v'' CHR ''=''"
    by code_simp+
  have k1: "''k'' = TrimSpace (take (nat 1) ''k='')"
    and k2: "''k'' = TrimSpace (take (nat 1) ''k=v'')"
    by code_simp+
  have v1: "[] = TrimSpace (drop (nat (1 + 1)) ''k='')"
    and v2: "''v'' = TrimSpace (drop (nat (1 + 1)) ''k=v'')"
    by code_simp+
  have b2: "loopBody [''p'', ''--k=v''] 1 (Argv ''p'' None [] (Some [])) True
      = Continue 1 (Argv ''p'' None [] (Some [(''k'', [''v''])])) True"
    by code_simp
  have m: "([''p'', ''--k=''], 1, Argv ''p'' None [] (Some []), True)
      \<in> set (visits (Split ''a p --k='' CHR '' '') 0 newArgv False)"
    by code_simp
  have "parseLoop [''p'', ''--k=''] 1 (Argv ''p'' None [] (Some [])) True
     = Fail (Argv ''p'' None [] (Some [])) (MissingFlagValue ''k='')"
    using C8_missing_flag_value [OF _ f1 o1 p1 _ k1 _ v1, of "Argv ''p'' None [] (Some [])" True]
    by simp
  moreover have "\<exists>a. Parse ''a p --k='' = Fail a (MissingFlagValue ''k='')"
    using C8_missing_flag_value [OF _ f1 o1 p1 _ k1 _ v1, of "Argv ''p'' None [] (Some [])" True]
      m
    by simp
  moreover have "\<exists>vs. getPair (Argv ''p'' None [] (Some [(''k'', [''v''])])) ''k'' = Some vs
      \<and> vs \<noteq> []"
    using C8_missing_flag_value [OF _ f2 o2 p2 _ k2 _ v2, of "Argv ''p'' None [] (Some [])" True]
      b2
    by auto
  ultimately show ?thesis by simp
qed

text \<open>
  C9. When \<open>Parse\<close> succeeds, every node of the tree it returns has an allocated \<open>Pairs\<close>
  map, and every key of that map has at least one value.
\<close>

theorem C9_pairs_invariant:
  assumes "Parse s = Ok a"
  shows "\<forall>n \<in> set (nodes a). Pairs n \<noteq> None \<and> (\<forall>k vs. getPair n k = Some vs \<longrightarrow> vs \<noteq> [])"
proof -
  from assms have run: "parseLoop (Split s CHR '' '') 0 newArgv False = Ok a"
    by (simp add: Parse_def parseArgs_def split: if_splits)
  have "pairsOk newArgv"
    and "\<forall>s. Sub newArgv = Some s \<longrightarrow> (\<forall>n \<in> set (nodes s). pairsOk n)"
    by (simp_all add: newArgv_def pairsOk_def)
  then have "\<forall>n \<in> set (nodes a). pairsOk n"
    using run by (rule parseLoop_pairsOk)
  then show ?thesis using pairsOk_lookup by blast
qed

theorem C9_pairs_invariant_witness:
  "list_all (\<lambda>n. Pairs n \<noteq> None)
     (nodes (Argv ''p'' (Some (Argv ''q'' None [] (Some [(''k'', [''v''])]))) ''q --k=v''
        (Some [(''h'', [''true''])])))
   \<and> getPair (Argv ''p'' (Some (Argv ''q'' None [] (Some [(''k'', [''v''])]))) ''q --k=v''
        (Some [(''h'', [''true''])])) ''h'' \<noteq> Some []"
proof -
  have "Parse ''p -h q --k=v''
      = Ok (Argv ''p'' (Some (Argv ''q'' None [] (Some [(''k'', [''v''])]))) ''q --k=v''
          (Some [(''h'', [''true''])]))"
    by code_simp
  from C9_pairs_invariant [OF this] show ?thesis
    by (simp add: list_all_iff getPair_def)
qed

text \<open>
  C10. The claim is that a token of one or more dashes, an \<open>=\<close> and then anything is
  skipped with no effect, the parse going on with the next token. The values of a flag
  are collected before its key is looked at, so when the text after the \<open>=\<close> opens a list
  that the token does not close, the scan moves the cursor over the following tokens:
  on \<open>p -=[a b] c\<close> the token \<open>b]\<close> is taken as the end of the list and the loop goes on
  at \<open>c\<close>, not at \<open>b]\<close>.
\<close>

theorem C10_open_list_moves_cursor:
  "parseLoop [''p'', ''-=[a'', ''b]'', ''c''] 1 (Argv ''p'' None [] (Some [])) True
     \<noteq> parseLoop [''p'', ''-=[a'', ''b]'', ''c''] 2 (Argv ''p'' None [] (Some [])) True"
  by code_simp

text \<open>
  C10, amended. A token of one or more dashes, an \<open>=\<close> and then a rest that, trimmed, does
  not open a list or closes it in the same token, is skipped with no effect: the body
  continues with the cursor, the node and \<open>withCommand\<close> unchanged, so the parse goes on
  with the next token.
\<close>

theorem C10_empty_key_skipped:
  assumes "i < length args" and "args ! i = dashes @ CHR ''='' # rest"
    and "dashes \<noteq> []" and "set dashes \<subseteq> {CHR ''-''}"
    and "isList (TrimSpace rest) \<longrightarrow> isListEnd (TrimSpace rest)"
  shows "loopBody args i argd w = Continue i argd w
    \<and> parseLoop args i argd w = parseLoop args (i + 1) argd w"
proof -
  have opt: "TrimLeft (args ! i) ''-'' = CHR ''='' # rest" and flag: "isFlag (args ! i)"
    using assms(2-4) by (simp_all add: dashes_flag)
  from assms(5) obtain vs where "collectValues args i (TrimSpace rest) = Inr (vs, i)"
    using collectValues_closed by blast
  then have body: "loopBody args i argd w = Continue i argd w"
    by (simp add: loopBody_flag [OF flag] opt Index_def TrimSpace_Nil)
  with assms(1) have "parseLoop args i argd w = parseLoop args (i + 1) argd w"
    by (simp add: parseLoop_Continue)
  with body show ?thesis by simp
qed

theorem C10_empty_key_skipped_witness:
  "loopBody [''p'', ''-=v'', ''c''] 1 (Argv ''p'' None [] (Some [])) True
      = Continue 1 (Argv ''p'' None [] (Some [])) True
   \<and> parseLoop [''p'', ''-=v'', ''c''] 1 (Argv ''p'' None [] (Some [])) True
      = parseLoop [''p'', ''-=v'', ''c''] (1 + 1) (Argv ''p'' None [] (Some [])) True"
proof -
  have h: "isList (TrimSpace ''v'') \<longrightarrow> isListEnd (TrimSpace ''v'')" by code_simp
  show ?thesis
    using C10_empty_key_skipped [of 1 "[''p'', ''-=v'', ''c'']" "''-''" "''v''"
        "Argv ''p'' None [] (Some [])" True] h
    by simp
qed

end
